theory Spec2Isabelle
  imports Main
begin

section \<open>golazy: the lazy cell with a loader, a TTL and a preloaded value\<close>

text \<open>
  The Go package \<^verbatim>\<open>golazy\<close> has one interface, \<^verbatim>\<open>Lazy[T]\<close>, with the methods
  \<^verbatim>\<open>Value\<close> and \<^verbatim>\<open>Clear\<close>, and two implementations: \<^verbatim>\<open>withLoader[T]\<close>
  (with_loader.go) and \<^verbatim>\<open>static[T]\<close> (static.go). The public constructors are in
  golazy.go.

  The methods are embedded twice. First as functions of one call: the mutex \<^verbatim>\<open>mu\<close> of
  \<^verbatim>\<open>withLoader\<close> is held for the whole body of \<^verbatim>\<open>Value\<close> and of \<^verbatim>\<open>Clear\<close>, so a
  call that runs alone is one step on the cell. Then, for concurrent callers, as the steps
  of each caller around the mutex, which is then a part of the configuration.
\<close>

subsection \<open>The world outside the cell\<close>

text \<open>
  \<^verbatim>\<open>context.Context\<close> is opaque to the package: the only context it makes itself is
  \<^verbatim>\<open>context.Background()\<close>; every other one comes from the caller.
\<close>

datatype "context" = Background | UserCtx nat

text \<open>
  A loader is Go code with effects: it may take time and it may read and change variables
  of its own (the tests count its calls). The world is the monotonic clock in nanoseconds,
  which \<^verbatim>\<open>time.Now()\<close> and \<^verbatim>\<open>time.Since\<close> read, the state \<open>ext\<close> of the loader's
  own variables, and the record \<open>calls\<close> of every loader invocation so far, with the
  context and the arguments it received. A loader sees and changes the clock and \<open>ext\<close>
  only; the record of calls is written by \<open>invoke\<close> alone.

  The error result is \<open>None\<close> for Go's \<^verbatim>\<open>nil\<close> and \<open>Some e\<close> for an error \<open>e\<close>.
\<close>

record ('a, 'u) world =
  clock :: int
  calls :: "(context \<times> 'a list) list"
  ext :: 'u

type_synonym ('v, 'e, 'a, 'u) LazyFunc =
  "context \<Rightarrow> 'a list \<Rightarrow> int \<times> 'u \<Rightarrow> ('v \<times> 'e option) \<times> (int \<times> 'u)"

definition invoke ::
  "('v, 'e, 'a, 'u) LazyFunc \<Rightarrow> context \<Rightarrow> 'a list \<Rightarrow> ('a, 'u) world
    \<Rightarrow> ('v \<times> 'e option) \<times> ('a, 'u) world" where
  "invoke f ctx as w =
     (case f ctx as (clock w, ext w) of
        (r, (t', u')) \<Rightarrow> (r, \<lparr>clock = t', calls = calls w @ [(ctx, as)], ext = u'\<rparr>))"

definition time_Now :: "('a, 'u) world \<Rightarrow> int" where
  "time_Now w = clock w"

definition time_Since :: "int \<Rightarrow> ('a, 'u) world \<Rightarrow> int" where
  "time_Since t w = time_Now w - t"

subsection \<open>with_loader.go\<close>

text \<open>
  The struct \<^verbatim>\<open>withLoader[T]\<close>. The field \<^verbatim>\<open>value\<close> is \<open>value_l\<close> here, \<^verbatim>\<open>lastLoad\<close>
  is a pointer, \<open>None\<close> when \<^verbatim>\<open>nil\<close>, and \<^verbatim>\<open>ttl\<close> is a \<^verbatim>\<open>time.Duration\<close>, a number of
  nanoseconds.
\<close>

record ('v, 'e, 'a, 'u) withLoader =
  value_l :: 'v
  args :: "'a list"
  loader :: "('v, 'e, 'a, 'u) LazyFunc"
  loaded :: bool
  withTTL :: bool
  ttl :: int
  lastLoad :: "int option"

text \<open>
  A composite literal gives every field it does not name the zero value of its type:
  \<open>False\<close> for \<^verbatim>\<open>loaded\<close>, \<^verbatim>\<open>nil\<close> for \<^verbatim>\<open>lastLoad\<close>, and for \<^verbatim>\<open>value\<close> the zero
  value of \<^verbatim>\<open>T\<close>, which is the parameter \<open>zero\<close> of \<open>newWithLoader\<close>.
\<close>

definition newWithLoader ::
  "'v \<Rightarrow> ('v, 'e, 'a, 'u) LazyFunc \<Rightarrow> bool \<Rightarrow> int \<Rightarrow> 'a list \<Rightarrow> ('v, 'e, 'a, 'u) withLoader" where
  "newWithLoader zero f wTTL d as =
     \<lparr>value_l = zero, args = as, loader = f, loaded = False,
      withTTL = wTTL, ttl = d, lastLoad = None\<rparr>"

definition newWithLoaderPreloaded ::
  "'v \<Rightarrow> ('v, 'e, 'a, 'u) LazyFunc \<Rightarrow> bool \<Rightarrow> int \<Rightarrow> 'a list \<Rightarrow> ('a, 'u) world
    \<Rightarrow> ('v, 'e, 'a, 'u) withLoader" where
  "newWithLoaderPreloaded v f wTTL d as w =
     (let lastLoad' = time_Now w in
      \<lparr>value_l = v, args = as, loader = f, loaded = False,
       withTTL = wTTL, ttl = d, lastLoad = Some lastLoad'\<rparr>)"

definition needsRefresh :: "('v, 'e, 'a, 'u) withLoader \<Rightarrow> ('a, 'u) world \<Rightarrow> bool" where
  "needsRefresh l w =
     (withTTL l \<and> (case lastLoad l of None \<Rightarrow> False | Some t \<Rightarrow> time_Since t w > ttl l))"

definition withLoader_Value ::
  "('v, 'e, 'a, 'u) withLoader \<Rightarrow> context list \<Rightarrow> ('a, 'u) world
    \<Rightarrow> ('v \<times> 'e option) \<times> ('v, 'e, 'a, 'u) withLoader \<times> ('a, 'u) world" where
  "withLoader_Value l ctxs w =
     (if \<not> loaded l \<or> needsRefresh l w then
        (let ctx = (if length ctxs > 0 then ctxs ! 0 else Background) in
         case invoke (loader l) ctx (args l) w of
           ((v, err), w') \<Rightarrow>
             (let t = time_Now w' in
              ((v, err), l\<lparr>value_l := v, loaded := (err = None), lastLoad := Some t\<rparr>, w')))
      else ((value_l l, None), l, w))"

definition withLoader_Clear :: "('v, 'e, 'a, 'u) withLoader \<Rightarrow> ('v, 'e, 'a, 'u) withLoader" where
  "withLoader_Clear l = l\<lparr>loaded := False, lastLoad := None\<rparr>"

subsection \<open>static.go\<close>

record 'v static =
  value_s :: 'v

definition static_Value :: "'v static \<Rightarrow> context list \<Rightarrow> 'v \<times> 'e option" where
  "static_Value l ctxs = (value_s l, None)"

definition static_Clear :: "'v static \<Rightarrow> 'v static" where
  "static_Clear l = l"

subsection \<open>golazy.go\<close>

text \<open>The interface \<^verbatim>\<open>Lazy[T]\<close> with its two implementations, and the method dispatch.\<close>

datatype ('v, 'e, 'a, 'u) Lazy =
  OfWithLoader "('v, 'e, 'a, 'u) withLoader"
| OfStatic "'v static"

fun Value ::
  "('v, 'e, 'a, 'u) Lazy \<Rightarrow> context list \<Rightarrow> ('a, 'u) world
    \<Rightarrow> ('v \<times> 'e option) \<times> ('v, 'e, 'a, 'u) Lazy \<times> ('a, 'u) world" where
  "Value (OfWithLoader l) ctxs w =
     (case withLoader_Value l ctxs w of (r, l', w') \<Rightarrow> (r, OfWithLoader l', w'))"
| "Value (OfStatic s) ctxs w = (static_Value s ctxs, OfStatic s, w)"

fun Clear :: "('v, 'e, 'a, 'u) Lazy \<Rightarrow> ('v, 'e, 'a, 'u) Lazy" where
  "Clear (OfWithLoader l) = OfWithLoader (withLoader_Clear l)"
| "Clear (OfStatic s) = OfStatic (static_Clear s)"

definition WithLoader ::
  "'v \<Rightarrow> ('v, 'e, 'a, 'u) LazyFunc \<Rightarrow> 'a list \<Rightarrow> ('v, 'e, 'a, 'u) Lazy" where
  "WithLoader zero f as = OfWithLoader (newWithLoader zero f False 0 as)"

definition WithLoaderTTL ::
  "'v \<Rightarrow> ('v, 'e, 'a, 'u) LazyFunc \<Rightarrow> int \<Rightarrow> 'a list \<Rightarrow> ('v, 'e, 'a, 'u) Lazy" where
  "WithLoaderTTL zero f d as = OfWithLoader (newWithLoader zero f True d as)"

definition Preloaded ::
  "'v \<Rightarrow> ('v, 'e, 'a, 'u) LazyFunc \<Rightarrow> 'a list \<Rightarrow> ('a, 'u) world \<Rightarrow> ('v, 'e, 'a, 'u) Lazy" where
  "Preloaded v f as w = OfWithLoader (newWithLoaderPreloaded v f False 0 as w)"

definition PreloadedTTL ::
  "'v \<Rightarrow> ('v, 'e, 'a, 'u) LazyFunc \<Rightarrow> int \<Rightarrow> 'a list \<Rightarrow> ('a, 'u) world
    \<Rightarrow> ('v, 'e, 'a, 'u) Lazy" where
  "PreloadedTTL v f d as w = OfWithLoader (newWithLoaderPreloaded v f True d as w)"

definition Static :: "'v \<Rightarrow> ('v, 'e, 'a, 'u) Lazy" where
  "Static v = OfStatic \<lparr>value_s = v\<rparr>"

subsection \<open>A sequential client\<close>

text \<open>
  A client of one cell calls \<^verbatim>\<open>Value\<close> and \<^verbatim>\<open>Clear\<close> in some order and lets time pass
  between the calls (\<^verbatim>\<open>time.Sleep\<close> in the tests). \<open>run\<close> performs such a sequence and
  collects what the calls of \<^verbatim>\<open>Value\<close> returned, in order.
\<close>

datatype op = is_CallValue: CallValue "context list" | CallClear | Sleep nat

fun run ::
  "('v, 'e, 'a, 'u) Lazy \<Rightarrow> op list \<Rightarrow> ('a, 'u) world
    \<Rightarrow> ('v \<times> 'e option) list \<times> ('v, 'e, 'a, 'u) Lazy \<times> ('a, 'u) world" where
  "run c [] w = ([], c, w)"
| "run c (CallValue ctxs # ops) w =
     (case Value c ctxs w of
        (r, c', w') \<Rightarrow> (case run c' ops w' of (rs, c'', w'') \<Rightarrow> (r # rs, c'', w'')))"
| "run c (CallClear # ops) w = run (Clear c) ops w"
| "run c (Sleep d # ops) w = run c ops (w\<lparr>clock := clock w + int d\<rparr>)"

subsection \<open>Concurrent callers and the mutex\<close>

text \<open>
  Several goroutines call \<^verbatim>\<open>Value\<close> and \<^verbatim>\<open>Clear\<close> on one cell. Both methods start
  with \<^verbatim>\<open>l.mu.Lock()\<close> and end with the deferred \<^verbatim>\<open>l.mu.Unlock()\<close>, so a caller is
  in one of five places:
  \<^item> \<open>Ready\<close>: before \<^verbatim>\<open>l.mu.Lock()\<close>, which it passes only when the mutex is free;
  \<^item> \<open>Holding\<close>: the mutex taken, the body not yet run;
  \<^item> \<open>Loading\<close>: inside \<^verbatim>\<open>l.loader(ctx, l.args...)\<close>, the condition of \<^verbatim>\<open>Value\<close>
    having held; the loader's effect on the world happens when it returns;
  \<^item> \<open>Returning\<close>: the body done and its results fixed, the deferred unlock pending;
  \<^item> \<open>Done\<close>: returned, with the results of \<^verbatim>\<open>Value\<close>, or nothing for \<^verbatim>\<open>Clear\<close>.
  A configuration is the cell, the world, the state of the mutex and the place of every
  caller. \<open>thread_step i\<close> is the next step of caller \<open>i\<close> (none when it waits for the
  mutex or has returned); a schedule is any sequence of such steps and of time passing,
  and \<open>exec\<close> runs it.
\<close>

datatype call = DoValue "context list" | DoClear

datatype ('v, 'e) tstate =
  Ready call
| Holding call
| Loading "context"
| Returning "('v \<times> 'e option) option"
| Done "('v \<times> 'e option) option"

record ('v, 'e, 'a, 'u) conf =
  cell :: "('v, 'e, 'a, 'u) withLoader"
  wld :: "('a, 'u) world"
  mu :: bool
  thr :: "('v, 'e) tstate list"

fun in_cs :: "('v, 'e) tstate \<Rightarrow> bool" where
  "in_cs (Holding cl) = True"
| "in_cs (Loading ctx) = True"
| "in_cs (Returning r) = True"
| "in_cs (Ready cl) = False"
| "in_cs (Done r) = False"

fun is_Loading :: "('v, 'e) tstate \<Rightarrow> bool" where
  "is_Loading (Loading ctx) = True"
| "is_Loading t = False"

fun is_Done :: "('v, 'e) tstate \<Rightarrow> bool" where
  "is_Done (Done r) = True"
| "is_Done t = False"

definition thread_step :: "nat \<Rightarrow> ('v, 'e, 'a, 'u) conf \<Rightarrow> ('v, 'e, 'a, 'u) conf" where
  "thread_step i c =
     (if i < length (thr c) then
        (case thr c ! i of
           Ready cl \<Rightarrow>
             if mu c then c else c\<lparr>mu := True, thr := (thr c)[i := Holding cl]\<rparr>
         | Holding cl \<Rightarrow>
             (case cl of
                DoValue ctxs \<Rightarrow>
                  if \<not> loaded (cell c) \<or> needsRefresh (cell c) (wld c) then
                    c\<lparr>thr := (thr c)[i := Loading (if length ctxs > 0 then ctxs ! 0 else Background)]\<rparr>
                  else c\<lparr>thr := (thr c)[i := Returning (Some (value_l (cell c), None))]\<rparr>
              | DoClear \<Rightarrow>
                  c\<lparr>cell := withLoader_Clear (cell c),
                    thr := (thr c)[i := Returning None]\<rparr>)
         | Loading ctx \<Rightarrow>
             (case invoke (loader (cell c)) ctx (args (cell c)) (wld c) of
                ((v, err), w') \<Rightarrow>
                  (let t = time_Now w' in
                   c\<lparr>cell := (cell c)\<lparr>value_l := v, loaded := (err = None), lastLoad := Some t\<rparr>,
                     wld := w', thr := (thr c)[i := Returning (Some (v, err))]\<rparr>))
         | Returning r \<Rightarrow> c\<lparr>mu := False, thr := (thr c)[i := Done r]\<rparr>
         | Done r \<Rightarrow> c)
      else c)"

datatype event = Run nat | Tick nat

fun exec :: "('v, 'e, 'a, 'u) conf \<Rightarrow> event list \<Rightarrow> ('v, 'e, 'a, 'u) conf" where
  "exec c [] = c"
| "exec c (Run i # es) = exec (thread_step i c) es"
| "exec c (Tick d # es) = exec (c\<lparr>wld := (wld c)\<lparr>clock := clock (wld c) + int d\<rparr>\<rparr>) es"

definition start ::
  "('v, 'e, 'a, 'u) withLoader \<Rightarrow> ('a, 'u) world \<Rightarrow> call list \<Rightarrow> ('v, 'e, 'a, 'u) conf" where
  "start l w cls = \<lparr>cell = l, wld = w, mu = False, thr = map Ready cls\<rparr>"

text \<open>
  The invariants of the proofs below: the mutex is locked exactly when a caller is between
  \<^verbatim>\<open>Lock\<close> and \<^verbatim>\<open>Unlock\<close>, and there is at most one such caller; and, for callers of
  \<^verbatim>\<open>Value\<close> on a fresh cell without TTL whose loader does not fail, the two phases
  before and after the one load.
\<close>

definition mutex_inv :: "('v, 'e, 'a, 'u) conf \<Rightarrow> bool" where
  "mutex_inv c \<longleftrightarrow>
     (mu c \<longleftrightarrow> (\<exists>i<length (thr c). in_cs (thr c ! i))) \<and>
     (\<forall>i<length (thr c). \<forall>j<length (thr c). in_cs (thr c ! i) \<and> in_cs (thr c ! j) \<longrightarrow> i = j)"

fun before_load :: "('v, 'e) tstate \<Rightarrow> bool" where
  "before_load (Ready (DoValue ctxs)) = True"
| "before_load (Holding (DoValue ctxs)) = True"
| "before_load (Loading ctx) = True"
| "before_load t = False"

fun after_load :: "'v \<Rightarrow> ('v, 'e) tstate \<Rightarrow> bool" where
  "after_load v (Ready (DoValue ctxs)) = True"
| "after_load v (Holding (DoValue ctxs)) = True"
| "after_load v (Returning r) = (r = Some (v, None))"
| "after_load v (Done r) = (r = Some (v, None))"
| "after_load v t = False"

definition single_flight_inv ::
  "('v, 'e, 'a, 'u) LazyFunc \<Rightarrow> 'a list \<Rightarrow> (context \<times> 'a list) list
    \<Rightarrow> ('v, 'e, 'a, 'u) conf \<Rightarrow> bool" where
  "single_flight_inv f as cs0 c \<longleftrightarrow>
     \<not> withTTL (cell c) \<and> loader (cell c) = f \<and> args (cell c) = as \<and>
     (if loaded (cell c)
      then (\<exists>x. calls (wld c) = cs0 @ [x]) \<and>
           (\<forall>i<length (thr c). after_load (value_l (cell c)) (thr c ! i))
      else calls (wld c) = cs0 \<and> (\<forall>i<length (thr c). before_load (thr c ! i)))"

subsection \<open>Test loaders\<close>

text \<open>The loaders of the tests, used below at concrete inputs.\<close>

definition const_loader :: "'v \<Rightarrow> ('v, 'e, 'a, nat) LazyFunc" where
  "const_loader v ctx as s = (case s of (t, n) \<Rightarrow> ((v, None), (t, Suc n)))"

definition failing_loader :: "'v \<Rightarrow> 'e \<Rightarrow> ('v, 'e, 'a, nat) LazyFunc" where
  "failing_loader v e ctx as s = (case s of (t, n) \<Rightarrow> ((v, Some e), (t, Suc n)))"

definition echo_loader :: "(context \<times> 'a list, 'e, 'a, nat) LazyFunc" where
  "echo_loader ctx as s = (case s of (t, n) \<Rightarrow> (((ctx, as), None), (t, Suc n)))"

definition world0 :: "('a, nat) world" where
  "world0 = \<lparr>clock = 0, calls = [], ext = 0\<rparr>"

section \<open>Basic facts\<close>

lemma invoke_calls: "calls (snd (invoke f ctx as w)) = calls w @ [(ctx, as)]"
  by (simp add: invoke_def split: prod.splits)

lemma invoke_result: "fst (invoke f ctx as w) = fst (f ctx as (clock w, ext w))"
  by (simp add: invoke_def split: prod.splits)

lemmas eval_defs =
  withLoader_Value_def needsRefresh_def time_Since_def time_Now_def invoke_def
  withLoader_Clear_def newWithLoader_def newWithLoaderPreloaded_def
  WithLoader_def WithLoaderTTL_def Preloaded_def PreloadedTTL_def Static_def
  static_Value_def static_Clear_def
  const_loader_def failing_loader_def echo_loader_def world0_def Let_def

lemma needsRefresh_iff:
  "needsRefresh l w \<longleftrightarrow> withTTL l \<and> (\<exists>t. lastLoad l = Some t \<and> clock w - t > ttl l)"
  by (simp add: needsRefresh_def time_Since_def time_Now_def split: option.splits)

lemma withLoader_Value_hit:
  "loaded l \<Longrightarrow> \<not> needsRefresh l w \<Longrightarrow> withLoader_Value l ctxs w = ((value_l l, None), l, w)"
  by (simp add: withLoader_Value_def)

lemma withLoader_Value_load:
  "\<not> loaded l \<or> needsRefresh l w \<Longrightarrow>
   withLoader_Value l ctxs w =
     (case invoke (loader l) (case ctxs of [] \<Rightarrow> Background | c # _ \<Rightarrow> c) (args l) w of
        ((v, err), w') \<Rightarrow>
          ((v, err), l\<lparr>value_l := v, loaded := (err = None), lastLoad := Some (clock w')\<rparr>, w'))"
  by (cases ctxs) (simp_all add: withLoader_Value_def time_Now_def Let_def)

lemma withLoader_Value_load_elim:
  assumes "\<not> loaded l \<or> needsRefresh l w"
    and "withLoader_Value l ctxs w = (r, l', w')"
  shows "r = fst (loader l (case ctxs of [] \<Rightarrow> Background | c # _ \<Rightarrow> c) (args l) (clock w, ext w))"
    and "l' = l\<lparr>value_l := fst r, loaded := (snd r = None), lastLoad := Some (clock w')\<rparr>"
    and "calls w' = calls w @ [(case ctxs of [] \<Rightarrow> Background | c # _ \<Rightarrow> c, args l)]"
  using assms(2) unfolding withLoader_Value_load [OF assms(1)] invoke_def
  by (auto split: prod.splits)

lemma withLoader_Value_calls_cases:
  assumes "withLoader_Value l ctxs w = (r, l', w')"
  shows "(if \<not> loaded l \<or> needsRefresh l w
          then calls w' = calls w @ [(case ctxs of [] \<Rightarrow> Background | c # _ \<Rightarrow> c, args l)]
          else calls w' = calls w)"
proof (cases "\<not> loaded l \<or> needsRefresh l w")
  case True
  then show ?thesis using withLoader_Value_load_elim(3) [OF True assms] by simp
next
  case False
  then show ?thesis using assms withLoader_Value_hit [of l w ctxs] by auto
qed

lemma withLoader_Value_config:
  assumes "withLoader_Value l ctxs w = (r, l', w')"
  shows "args l' = args l \<and> loader l' = loader l \<and> withTTL l' = withTTL l \<and> ttl l' = ttl l"
proof (cases "\<not> loaded l \<or> needsRefresh l w")
  case True
  then show ?thesis using withLoader_Value_load_elim(2) [OF True assms] by simp
next
  case False
  then show ?thesis using assms withLoader_Value_hit [of l w ctxs] by auto
qed

lemma Value_withLoader_elim:
  assumes "Value (OfWithLoader l) ctxs w = (r, c, w')"
  obtains l' where "c = OfWithLoader l'" and "withLoader_Value l ctxs w = (r, l', w')"
  using assms by (auto split: prod.splits)

lemma run_withLoader_config:
  "run (OfWithLoader l) ops w = (rs, c, w') \<Longrightarrow>
   \<exists>l' cs. c = OfWithLoader l' \<and> args l' = args l \<and> loader l' = loader l
      \<and> withTTL l' = withTTL l \<and> ttl l' = ttl l
      \<and> calls w' = calls w @ cs \<and> (\<forall>x\<in>set cs. snd x = args l)"
proof (induction ops arbitrary: l w rs)
  case Nil
  then show ?case by auto
next
  case (Cons x ops)
  show ?case
  proof (cases x)
    case (CallValue ctxs)
    obtain r c1 w1 where v: "Value (OfWithLoader l) ctxs w = (r, c1, w1)"
      by (cases "Value (OfWithLoader l) ctxs w") auto
    then obtain l1 where c1: "c1 = OfWithLoader l1"
      and v1: "withLoader_Value l ctxs w = (r, l1, w1)"
      by (rule Value_withLoader_elim)
    obtain rs1 where rest: "run (OfWithLoader l1) ops w1 = (rs1, c, w')"
      using Cons.prems CallValue v c1 by (auto split: prod.splits)
    from Cons.IH [OF rest] obtain l' cs where
      ih: "c = OfWithLoader l'" "args l' = args l1" "loader l' = loader l1"
        "withTTL l' = withTTL l1" "ttl l' = ttl l1"
        "calls w' = calls w1 @ cs" "\<forall>x\<in>set cs. snd x = args l1"
      by blast
    note cfg = withLoader_Value_config [OF v1]
    from withLoader_Value_calls_cases [OF v1]
    obtain cs0 where cs0: "calls w1 = calls w @ cs0" "\<forall>x\<in>set cs0. snd x = args l"
      by (cases "\<not> loaded l \<or> needsRefresh l w") auto
    have "calls w' = calls w @ (cs0 @ cs)" "\<forall>x\<in>set (cs0 @ cs). snd x = args l"
      using ih(6,7) cs0 cfg by auto
    with ih(1-5) cfg show ?thesis by metis
  next
    case CallClear
    then have "run (OfWithLoader (withLoader_Clear l)) ops w = (rs, c, w')"
      using Cons.prems by simp
    from Cons.IH [OF this] show ?thesis
      by (simp add: withLoader_Clear_def)
  next
    case (Sleep d)
    then have "run (OfWithLoader l) ops (w\<lparr>clock := clock w + int d\<rparr>) = (rs, c, w')"
      using Cons.prems by simp
    from Cons.IH [OF this] show ?thesis by simp
  qed
qed

lemma run_cached_no_clear:
  "loaded l \<Longrightarrow> \<not> withTTL l \<Longrightarrow> CallClear \<notin> set ops \<Longrightarrow>
   run (OfWithLoader l) ops w = (rs, c, w') \<Longrightarrow>
   c = OfWithLoader l \<and> calls w' = calls w \<and> ext w' = ext w
   \<and> rs = replicate (length (filter is_CallValue ops)) (value_l l, None)"
proof (induction ops arbitrary: w rs)
  case Nil
  then show ?case by simp
next
  case (Cons x ops)
  show ?case
  proof (cases x)
    case (CallValue ctxs)
    have hit: "withLoader_Value l ctxs w = ((value_l l, None), l, w)"
      using Cons.prems(1,2) by (simp add: withLoader_Value_hit needsRefresh_iff)
    then obtain rs1 where rest: "run (OfWithLoader l) ops w = (rs1, c, w')"
      and rs: "rs = (value_l l, None) # rs1"
      using Cons.prems(4) CallValue by (auto split: prod.splits)
    from Cons.IH [OF Cons.prems(1,2) _ rest] Cons.prems(3) rs CallValue
    show ?thesis by simp
  next
    case CallClear
    with Cons.prems(3) show ?thesis by simp
  next
    case (Sleep d)
    then have "run (OfWithLoader l) ops (w\<lparr>clock := clock w + int d\<rparr>) = (rs, c, w')"
      using Cons.prems(4) by simp
    from Cons.IH [OF Cons.prems(1,2) _ this] Cons.prems(3) Sleep
    show ?thesis by simp
  qed
qed

lemma run_static:
  "run (OfStatic s) ops w = (rs, c, w') \<Longrightarrow>
   c = OfStatic s \<and> calls w' = calls w \<and> ext w' = ext w
   \<and> rs = replicate (length (filter is_CallValue ops)) (value_s s, None)"
proof (induction ops arbitrary: w rs)
  case Nil
  then show ?case by simp
next
  case (Cons x ops)
  show ?case
  proof (cases x)
    case (CallValue ctxs)
    then obtain rs1 where rest: "run (OfStatic s) ops w = (rs1, c, w')"
      and rs: "rs = (value_s s, None) # rs1"
      using Cons.prems by (auto simp: static_Value_def split: prod.splits)
    from Cons.IH [OF rest] rs CallValue show ?thesis by simp
  next
    case CallClear
    then have "run (OfStatic s) ops w = (rs, c, w')"
      using Cons.prems by (simp add: static_Clear_def)
    from Cons.IH [OF this] CallClear show ?thesis by simp
  next
    case (Sleep d)
    then have "run (OfStatic s) ops (w\<lparr>clock := clock w + int d\<rparr>) = (rs, c, w')"
      using Cons.prems by simp
    from Cons.IH [OF this] Sleep show ?thesis by simp
  qed
qed

section \<open>Facts about concurrent callers\<close>

lemma length_thr_thread_step [simp]: "length (thr (thread_step i c)) = length (thr c)"
  by (simp add: thread_step_def Let_def split: tstate.splits call.splits prod.splits)

lemma length_thr_exec [simp]: "length (thr (exec c es)) = length (thr c)"
proof (induction es arbitrary: c)
  case Nil
  show ?case by simp
next
  case (Cons e es)
  then show ?case by (cases e) simp_all
qed

lemma mutex_inv_start: "mutex_inv (start l w cls)"
  by (simp add: mutex_inv_def start_def)

lemma mutex_inv_thread_step:
  assumes "mutex_inv c"
  shows "mutex_inv (thread_step i c)"
proof (cases "i < length (thr c)")
  case False
  with assms show ?thesis by (simp add: thread_step_def)
next
  case lt: True
  show ?thesis
  proof (cases "thr c ! i")
    case (Ready cl)
    show ?thesis
    proof (cases "mu c")
      case True
      with Ready lt assms show ?thesis by (simp add: thread_step_def)
    next
      case False
      with assms have none: "\<forall>j<length (thr c). \<not> in_cs (thr c ! j)"
        by (simp add: mutex_inv_def)
      have eq: "thread_step i c = c\<lparr>mu := True, thr := (thr c)[i := Holding cl]\<rparr>"
        using Ready lt False by (simp add: thread_step_def)
      show ?thesis
        unfolding eq mutex_inv_def using none lt
        by (auto simp: nth_list_update)
    qed
  next
    case (Holding cl)
    from assms lt Holding have uniq: "\<forall>j<length (thr c). in_cs (thr c ! j) \<longrightarrow> j = i"
      and m: "mu c"
      by (auto simp: mutex_inv_def)
    have "\<exists>t cl' w'. thread_step i c = c\<lparr>cell := cl', wld := w', thr := (thr c)[i := t]\<rparr>
            \<and> in_cs t"
    proof (cases cl)
      case (DoValue ctxs)
      show ?thesis
      proof (cases "\<not> loaded (cell c) \<or> needsRefresh (cell c) (wld c)")
        case True
        then have "thread_step i c = c\<lparr>cell := cell c, wld := wld c,
            thr := (thr c)[i := Loading (if length ctxs > 0 then ctxs ! 0 else Background)]\<rparr>"
          using Holding lt DoValue by (simp add: thread_step_def)
        then show ?thesis by (metis in_cs.simps(2))
      next
        case False
        then have "thread_step i c = c\<lparr>cell := cell c, wld := wld c,
            thr := (thr c)[i := Returning (Some (value_l (cell c), None))]\<rparr>"
          using Holding lt DoValue by (simp add: thread_step_def)
        then show ?thesis by (metis in_cs.simps(3))
      qed
    next
      case DoClear
      then have "thread_step i c = c\<lparr>cell := withLoader_Clear (cell c),
          wld := wld c, thr := (thr c)[i := Returning None]\<rparr>"
        using Holding lt by (simp add: thread_step_def)
      then show ?thesis by (metis in_cs.simps(3))
    qed
    then obtain t cl' w' where
      eq: "thread_step i c = c\<lparr>cell := cl', wld := w', thr := (thr c)[i := t]\<rparr>"
      and t: "in_cs t"
      by blast
    show ?thesis
      unfolding eq mutex_inv_def using uniq m lt t
      by (auto simp: nth_list_update)
  next
    case (Loading ctx)
    from assms lt Loading have uniq: "\<forall>j<length (thr c). in_cs (thr c ! j) \<longrightarrow> j = i"
      and m: "mu c"
      by (auto simp: mutex_inv_def)
    obtain v err w' where inv: "invoke (loader (cell c)) ctx (args (cell c)) (wld c) = ((v, err), w')"
      by (cases "invoke (loader (cell c)) ctx (args (cell c)) (wld c)") auto
    have eq: "thread_step i c =
        c\<lparr>cell := (cell c)\<lparr>value_l := v, loaded := (err = None), lastLoad := Some (time_Now w')\<rparr>,
          wld := w', thr := (thr c)[i := Returning (Some (v, err))]\<rparr>"
      using Loading lt inv by (simp add: thread_step_def)
    have t: "in_cs (Returning (Some (v, err)))" by simp
    show ?thesis
      unfolding eq mutex_inv_def using uniq m lt t
      by (auto simp: nth_list_update)
  next
    case (Returning r)
    from assms lt Returning have uniq: "\<forall>j<length (thr c). in_cs (thr c ! j) \<longrightarrow> j = i"
      by (auto simp: mutex_inv_def)
    have eq: "thread_step i c = c\<lparr>mu := False, thr := (thr c)[i := Done r]\<rparr>"
      using Returning lt by (simp add: thread_step_def)
    show ?thesis
      unfolding eq mutex_inv_def using uniq lt
      by (auto simp: nth_list_update)
  next
    case (Done r)
    with lt assms show ?thesis by (simp add: thread_step_def)
  qed
qed

lemma mutex_inv_exec: "mutex_inv c \<Longrightarrow> mutex_inv (exec c es)"
proof (induction es arbitrary: c)
  case Nil
  then show ?case by simp
next
  case (Cons e es)
  show ?case
  proof (cases e)
    case (Run i)
    with Cons show ?thesis by (simp add: mutex_inv_thread_step)
  next
    case (Tick d)
    have "mutex_inv (c\<lparr>wld := (wld c)\<lparr>clock := clock (wld c) + int d\<rparr>\<rparr>)"
      using Cons.prems by (simp add: mutex_inv_def)
    with Cons.IH Tick show ?thesis by simp
  qed
qed

lemma before_load_cases:
  assumes "before_load t"
  obtains ctxs where "t = Ready (DoValue ctxs)"
  | ctxs where "t = Holding (DoValue ctxs)"
  | ctx where "t = Loading ctx"
  using assms by (cases t rule: before_load.cases) auto

lemma after_load_cases:
  assumes "after_load v t"
  obtains ctxs where "t = Ready (DoValue ctxs)"
  | ctxs where "t = Holding (DoValue ctxs)"
  | "t = Returning (Some (v, None))"
  | "t = Done (Some (v, None))"
  using assms by (cases "(v, t)" rule: after_load.cases) auto

lemma before_load_after_load:
  "before_load t \<Longrightarrow> \<not> in_cs t \<Longrightarrow> after_load v t"
  by (erule before_load_cases) simp_all

lemma single_flight_inv_thread_step:
  assumes ok: "\<forall>ctx s. snd (fst (f ctx as s)) = None"
    and mx: "mutex_inv c"
    and sf: "single_flight_inv f as cs0 c"
  shows "single_flight_inv f as cs0 (thread_step i c)"
proof (cases "i < length (thr c)")
  case False
  with sf show ?thesis by (simp add: thread_step_def)
next
  case lt: True
  from sf have cfg: "\<not> withTTL (cell c)" "loader (cell c) = f" "args (cell c) = as"
    by (simp_all add: single_flight_inv_def)
  show ?thesis
  proof (cases "loaded (cell c)")
    case ld: True
    with sf obtain x where x: "calls (wld c) = cs0 @ [x]"
      and al: "\<forall>j<length (thr c). after_load (value_l (cell c)) (thr c ! j)"
      by (auto simp: single_flight_inv_def)
    from al lt have "after_load (value_l (cell c)) (thr c ! i)" by simp
    then show ?thesis
    proof (cases rule: after_load_cases)
      case (1 ctxs)
      show ?thesis
      proof (cases "mu c")
        case True
        with 1 lt sf show ?thesis by (simp add: thread_step_def)
      next
        case False
        then have eq: "thread_step i c = c\<lparr>mu := True, thr := (thr c)[i := Holding (DoValue ctxs)]\<rparr>"
          using 1 lt by (simp add: thread_step_def)
        show ?thesis
          unfolding eq single_flight_inv_def using cfg ld x al lt
          by (auto simp: nth_list_update)
      qed
    next
      case (2 ctxs)
      have "\<not> needsRefresh (cell c) (wld c)"
        using cfg(1) by (simp add: needsRefresh_def)
      then have eq: "thread_step i c
          = c\<lparr>thr := (thr c)[i := Returning (Some (value_l (cell c), None))]\<rparr>"
        using 2 lt ld by (simp add: thread_step_def)
      show ?thesis
        unfolding eq single_flight_inv_def using cfg ld x al lt
        by (auto simp: nth_list_update)
    next
      case 3
      then have eq: "thread_step i c
          = c\<lparr>mu := False, thr := (thr c)[i := Done (Some (value_l (cell c), None))]\<rparr>"
        using lt by (simp add: thread_step_def)
      show ?thesis
        unfolding eq single_flight_inv_def using cfg ld x al lt
        by (auto simp: nth_list_update)
    next
      case 4
      with lt sf show ?thesis by (simp add: thread_step_def)
    qed
  next
    case nl: False
    with sf have cs: "calls (wld c) = cs0"
      and bl: "\<forall>j<length (thr c). before_load (thr c ! j)"
      by (auto simp: single_flight_inv_def)
    from bl lt have "before_load (thr c ! i)" by simp
    then show ?thesis
    proof (cases rule: before_load_cases)
      case (1 ctxs)
      show ?thesis
      proof (cases "mu c")
        case True
        with 1 lt sf show ?thesis by (simp add: thread_step_def)
      next
        case False
        then have eq: "thread_step i c = c\<lparr>mu := True, thr := (thr c)[i := Holding (DoValue ctxs)]\<rparr>"
          using 1 lt by (simp add: thread_step_def)
        show ?thesis
          unfolding eq single_flight_inv_def using cfg nl cs bl lt
          by (auto simp: nth_list_update)
      qed
    next
      case (2 ctxs)
      then have eq: "thread_step i c
          = c\<lparr>thr := (thr c)[i := Loading (if length ctxs > 0 then ctxs ! 0 else Background)]\<rparr>"
        using lt nl by (simp add: thread_step_def)
      show ?thesis
        unfolding eq single_flight_inv_def using cfg nl cs bl lt
        by (auto simp: nth_list_update)
    next
      case (3 ctx)
      obtain v err w' where inv: "invoke f ctx as (wld c) = ((v, err), w')"
        by (cases "invoke f ctx as (wld c)") auto
      have "fst (invoke f ctx as (wld c)) = fst (f ctx as (clock (wld c), ext (wld c)))"
        by (rule invoke_result)
      with inv ok have err: "err = None"
        by (metis fst_conv snd_conv)
      have w': "calls w' = cs0 @ [(ctx, as)]"
        using invoke_calls [of f ctx as "wld c"] inv cs by simp
      have eq: "thread_step i c =
          c\<lparr>cell := (cell c)\<lparr>value_l := v, loaded := True, lastLoad := Some (time_Now w')\<rparr>,
            wld := w', thr := (thr c)[i := Returning (Some (v, None))]\<rparr>"
        using 3 lt inv err cfg by (simp add: thread_step_def)
      have others: "after_load v (thr c ! j)" if "j < length (thr c)" "j \<noteq> i" for j
      proof -
        have "in_cs (thr c ! i)" using 3 by simp
        with mx lt that have "\<not> in_cs (thr c ! j)"
          unfolding mutex_inv_def by blast
        moreover from bl that(1) have "before_load (thr c ! j)" by simp
        ultimately show ?thesis by (simp add: before_load_after_load)
      qed
      show ?thesis
        unfolding eq single_flight_inv_def using cfg w' lt others
        by (auto simp: nth_list_update)
    qed
  qed
qed

lemma single_flight_inv_exec:
  assumes ok: "\<forall>ctx s. snd (fst (f ctx as s)) = None"
  shows "mutex_inv c \<Longrightarrow> single_flight_inv f as cs0 c \<Longrightarrow> single_flight_inv f as cs0 (exec c es)"
proof (induction es arbitrary: c)
  case Nil
  then show ?case by simp
next
  case (Cons e es)
  show ?case
  proof (cases e)
    case (Run i)
    have "mutex_inv (thread_step i c)"
      using Cons.prems(1) by (rule mutex_inv_thread_step)
    moreover have "single_flight_inv f as cs0 (thread_step i c)"
      by (rule single_flight_inv_thread_step [where f = f and as = as, OF ok Cons.prems])
    ultimately show ?thesis using Cons.IH Run by simp
  next
    case (Tick d)
    let ?c = "c\<lparr>wld := (wld c)\<lparr>clock := clock (wld c) + int d\<rparr>\<rparr>"
    have "mutex_inv ?c" using Cons.prems(1) by (simp add: mutex_inv_def)
    moreover have "single_flight_inv f as cs0 ?c"
      using Cons.prems(2) by (auto simp: single_flight_inv_def split: if_splits)
    ultimately show ?thesis using Cons.IH Tick by simp
  qed
qed

lemma single_flight_inv_start:
  "single_flight_inv f as (calls w0)
     (start (newWithLoader zero f False d as) w0 (map DoValue ctxss))"
  by (simp add: single_flight_inv_def start_def newWithLoader_def)

lemma thread_step_cell_owner:
  assumes "cell (thread_step i c) \<noteq> cell c \<or> wld (thread_step i c) \<noteq> wld c"
  shows "i < length (thr c) \<and> in_cs (thr c ! i)"
proof (cases "i < length (thr c)")
  case False
  with assms show ?thesis by (simp add: thread_step_def)
next
  case True
  with assms show ?thesis
    by (cases "thr c ! i")
      (auto simp: thread_step_def Let_def split: if_splits call.splits prod.splits)
qed

lemma is_Loading_in_cs: "is_Loading t \<Longrightarrow> in_cs t"
  by (cases t) simp_all

lemma mutex_inv_unique:
  "mutex_inv c \<Longrightarrow> i < length (thr c) \<Longrightarrow> j < length (thr c) \<Longrightarrow>
   in_cs (thr c ! i) \<Longrightarrow> in_cs (thr c ! j) \<Longrightarrow> i = j"
  unfolding mutex_inv_def by blast

lemma mutex_inv_locked:
  "mutex_inv c \<Longrightarrow> i < length (thr c) \<Longrightarrow> in_cs (thr c ! i) \<Longrightarrow> mu c"
  unfolding mutex_inv_def by blast

lemma mutex_inv_exec_start: "mutex_inv (exec (start l w cls) es)"
  by (rule mutex_inv_exec) (rule mutex_inv_start)

lemma length_thr_exec_start: "length (thr (exec (start l w cls) es)) = length cls"
  by (simp add: start_def)

lemma single_flight_at_most_one:
  assumes "single_flight_inv f as cs0 c"
  shows "calls (wld c) = cs0 \<or> (\<exists>x. calls (wld c) = cs0 @ [x])"
proof (cases "loaded (cell c)")
  case True
  with assms show ?thesis by (simp add: single_flight_inv_def)
next
  case False
  with assms show ?thesis by (simp add: single_flight_inv_def)
qed

lemma single_flight_done:
  assumes sf: "single_flight_inv f as cs0 c"
    and i: "i < length (thr c)" "is_Done (thr c ! i)"
  shows "(\<exists>x. calls (wld c) = cs0 @ [x]) \<and>
         (\<forall>j<length (thr c). is_Done (thr c ! j) \<longrightarrow>
            thr c ! j = Done (Some (value_l (cell c), None)))"
proof -
  have ld: "loaded (cell c)"
  proof (rule ccontr)
    assume "\<not> loaded (cell c)"
    with sf i(1) have "before_load (thr c ! i)"
      by (simp add: single_flight_inv_def)
    then show False
      using i(2) by (cases rule: before_load_cases) simp_all
  qed
  with sf have x: "\<exists>x. calls (wld c) = cs0 @ [x]"
    and al: "\<forall>j<length (thr c). after_load (value_l (cell c)) (thr c ! j)"
    by (simp_all add: single_flight_inv_def)
  have "thr c ! j = Done (Some (value_l (cell c), None))"
    if "j < length (thr c)" "is_Done (thr c ! j)" for j
  proof -
    from al that(1) have "after_load (value_l (cell c)) (thr c ! j)" by simp
    then show ?thesis using that(2) by (cases rule: after_load_cases) simp_all
  qed
  with x show ?thesis by simp
qed

text \<open>
  A caller that runs alone from \<open>Ready\<close> to \<open>Done\<close> does what the sequential
  \<open>withLoader_Value\<close> and \<open>withLoader_Clear\<close> do.
\<close>

lemma solo_Value:
  assumes "i < length (thr c)" and "thr c ! i = Ready (DoValue ctxs)" and "\<not> mu c"
    and "withLoader_Value (cell c) ctxs (wld c) = (r, l', w')"
  shows "exec c [Run i, Run i, Run i, Run i]
         = c\<lparr>cell := l', wld := w', mu := False, thr := (thr c)[i := Done (Some r)]\<rparr>"
proof (cases "\<not> loaded (cell c) \<or> needsRefresh (cell c) (wld c)")
  case True
  with assms show ?thesis
    by (auto simp: thread_step_def withLoader_Value_def Let_def split: prod.splits)
next
  case False
  with assms show ?thesis
    by (auto simp: thread_step_def withLoader_Value_def Let_def split: prod.splits)
qed

lemma solo_Clear:
  assumes "i < length (thr c)" and "thr c ! i = Ready DoClear" and "\<not> mu c"
  shows "exec c [Run i, Run i, Run i]
         = c\<lparr>cell := withLoader_Clear (cell c), mu := False, thr := (thr c)[i := Done None]\<rparr>"
  using assms by (simp add: thread_step_def withLoader_Clear_def)

text \<open>Running the callers one after the other lets every one of them return.\<close>

lemma exec_append: "exec c (es @ es') = exec (exec c es) es'"
proof (induction es arbitrary: c)
  case Nil
  show ?case by simp
next
  case (Cons e es)
  then show ?case by (cases e) simp_all
qed

lemma sequential_schedule_completes:
  assumes "\<not> mu c"
    and "\<forall>i<length (thr c). \<exists>ctxs. thr c ! i = Ready (DoValue ctxs)"
  shows "k \<le> length (thr c) \<Longrightarrow>
         \<not> mu (exec c (concat (map (\<lambda>i. [Run i, Run i, Run i, Run i]) [0..<k])))
       \<and> (\<forall>i<k. is_Done (thr (exec c (concat (map (\<lambda>i. [Run i, Run i, Run i, Run i]) [0..<k]))) ! i))
       \<and> (\<forall>i<length (thr c). k \<le> i \<longrightarrow>
            thr (exec c (concat (map (\<lambda>i. [Run i, Run i, Run i, Run i]) [0..<k]))) ! i = thr c ! i)"
proof (induction k)
  case 0
  with assms(1) show ?case by simp
next
  case (Suc k)
  let ?es = "concat (map (\<lambda>i. [Run i, Run i, Run i, Run i]) [0..<k])"
  let ?c = "exec c ?es"
  from Suc have k: "k < length (thr c)" by simp
  with Suc.IH have mu: "\<not> mu ?c"
    and dn: "\<forall>i<k. is_Done (thr ?c ! i)"
    and same: "\<forall>i<length (thr c). k \<le> i \<longrightarrow> thr ?c ! i = thr c ! i"
    by simp_all
  from assms(2) k obtain ctxs where "thr c ! k = Ready (DoValue ctxs)"
    by blast
  with same k have rd: "thr ?c ! k = Ready (DoValue ctxs)"
    by simp
  have len: "length (thr ?c) = length (thr c)" by simp
  obtain r l' w' where v: "withLoader_Value (cell ?c) ctxs (wld ?c) = (r, l', w')"
    using prod_cases3 by blast
  have k': "k < length (thr ?c)" using k len by simp
  have step: "exec ?c [Run k, Run k, Run k, Run k]
      = ?c\<lparr>cell := l', wld := w', mu := False, thr := (thr ?c)[k := Done (Some r)]\<rparr>"
    using k' rd mu v by (rule solo_Value)
  have split: "exec c (concat (map (\<lambda>i. [Run i, Run i, Run i, Run i]) [0..<Suc k]))
      = exec ?c [Run k, Run k, Run k, Run k]"
    by (simp add: exec_append)
  show ?case
    unfolding split step using dn same k len
    by (auto simp: nth_list_update less_Suc_eq)
qed

lemma all_callers_can_return:
  "\<exists>es. \<forall>i<length ctxss.
      is_Done (thr (exec (start l w (map DoValue ctxss)) es) ! i)"
proof -
  let ?c = "start l w (map DoValue ctxss)"
  have "\<not> mu ?c" by (simp add: start_def)
  moreover have "\<forall>i<length (thr ?c). \<exists>ctxs. thr ?c ! i = Ready (DoValue ctxs)"
    by (simp add: start_def)
  moreover have "length ctxss \<le> length (thr ?c)" by (simp add: start_def)
  ultimately have "\<forall>i<length ctxss. is_Done (thr (exec ?c
      (concat (map (\<lambda>i. [Run i, Run i, Run i, Run i]) [0..<length ctxss]))) ! i)"
    using sequential_schedule_completes [of ?c "length ctxss"] by blast
  then show ?thesis by (rule exI)
qed

section \<open>The claims\<close>

text \<open>
  Claim C1 says that a preloaded cell has \<open>loaded = true\<close> and \<open>lastLoad = now\<close> and
  that its first \<^verbatim>\<open>Value\<close> returns the preload value without invoking the loader. The
  composite literal of \<^verbatim>\<open>newWithLoaderPreloaded\<close> does not set \<^verbatim>\<open>loaded\<close>: the cell
  has \<open>lastLoad = now\<close> and holds the preload value, but it is not loaded, so its first
  \<^verbatim>\<open>Value\<close> invokes the loader and returns the loader's result, with or without TTL.
  The witness is the test \<^verbatim>\<open>TestPreloaded_ReturnsPreloadedValue\<close>, which expects
  \<^verbatim>\<open>"preloaded"\<close> and no call of the loader.
\<close>

theorem newWithLoaderPreloaded_is_not_loaded:
  "loaded (newWithLoaderPreloaded v f b d as w0) = False
   \<and> lastLoad (newWithLoaderPreloaded v f b d as w0) = Some (clock w0)
   \<and> value_l (newWithLoaderPreloaded v f b d as w0) = v
   \<and> fst (withLoader_Value (newWithLoaderPreloaded v f b d as w0) ctxs w)
       = fst (f (case ctxs of [] \<Rightarrow> Background | c # _ \<Rightarrow> c) as (clock w, ext w))
   \<and> calls (snd (snd (withLoader_Value (newWithLoaderPreloaded v f b d as w0) ctxs w)))
       = calls w @ [(case ctxs of [] \<Rightarrow> Background | c # _ \<Rightarrow> c, as)]"
proof -
  let ?l = "newWithLoaderPreloaded v f b d as w0"
  have fields: "loaded ?l = False" "lastLoad ?l = Some (clock w0)" "value_l ?l = v"
    "args ?l = as" "loader ?l = f"
    by (simp_all add: newWithLoaderPreloaded_def time_Now_def)
  obtain r l' w' where val: "withLoader_Value ?l ctxs w = (r, l', w')"
    by (cases "withLoader_Value ?l ctxs w") auto
  from fields(1) have "\<not> loaded ?l \<or> needsRefresh ?l w" by simp
  from withLoader_Value_load_elim(1,3) [OF this val] fields val
  show ?thesis by simp
qed

theorem newWithLoaderPreloaded_is_not_loaded_witness:
  "Value (Preloaded ''preloaded'' (const_loader ''from-loader'') ([]::nat list) world0) []
     world0
   = ((''from-loader'', None :: string option),
      OfWithLoader
        \<lparr>value_l = ''from-loader'', args = [], loader = const_loader ''from-loader'',
         loaded = True, withTTL = False, ttl = 0, lastLoad = Some 0\<rparr>,
      \<lparr>clock = 0, calls = [(Background, [])], ext = 1\<rparr>)"
  using newWithLoaderPreloaded_is_not_loaded
    [of "''preloaded''" "const_loader ''from-loader'' :: (string, string, nat, nat) LazyFunc"
        False 0 "[]" world0 "[]" world0]
  by (simp add: eval_defs)

text \<open>
  Claim C2. When \<^verbatim>\<open>Value\<close> invokes the loader (with context \<open>ctx\<close> and arguments
  \<open>as\<close>) and the loader returns \<open>(v, e)\<close> with \<open>e\<close> an error, \<^verbatim>\<open>Value\<close> returns
  exactly \<open>(v, e)\<close>; afterwards the cell holds \<open>v\<close>, is not loaded, and its
  \<open>lastLoad\<close> is the clock at the loader's return. The next call of \<^verbatim>\<open>Value\<close>,
  whenever it comes and with whatever contexts, invokes the loader again.
\<close>

theorem failed_load_is_returned_and_retried:
  assumes "withLoader_Value l ctxs w = (r, l', w')"
    and "calls w' = calls w @ [(ctx, as)]"
    and "fst (loader l ctx as (clock w, ext w)) = (v, Some e)"
  shows "r = (v, Some e) \<and> value_l l' = v \<and> \<not> loaded l' \<and> lastLoad l' = Some (clock w')
       \<and> (\<forall>ctxs2 w2. calls (snd (snd (withLoader_Value l' ctxs2 w2)))
             = calls w2 @ [(case ctxs2 of [] \<Rightarrow> Background | c # _ \<Rightarrow> c, args l)])"
proof -
  have cond: "\<not> loaded l \<or> needsRefresh l w"
    using withLoader_Value_calls_cases [OF assms(1)] assms(2) by (auto split: if_splits)
  note load = withLoader_Value_load_elim [OF cond assms(1)]
  from load(3) assms(2)
  have ctx: "ctx = (case ctxs of [] \<Rightarrow> Background | c # _ \<Rightarrow> c)" and as: "as = args l"
    by simp_all
  from load(1) assms(3) have r: "r = (v, Some e)"
    by (simp add: ctx as)
  from load(2) r have fields: "value_l l' = v" "\<not> loaded l'" "lastLoad l' = Some (clock w')"
    "args l' = args l"
    by simp_all
  have "calls (snd (snd (withLoader_Value l' ctxs2 w2)))
          = calls w2 @ [(case ctxs2 of [] \<Rightarrow> Background | c # _ \<Rightarrow> c, args l)]" for ctxs2 w2
  proof -
    obtain r2 l2 w3 where v2: "withLoader_Value l' ctxs2 w2 = (r2, l2, w3)"
      by (cases "withLoader_Value l' ctxs2 w2") auto
    from fields(2) have "\<not> loaded l' \<or> needsRefresh l' w2" by simp
    from withLoader_Value_load_elim(3) [OF this v2] show ?thesis
      by (simp add: v2 fields(4))
  qed
  with r fields show ?thesis by simp
qed

theorem failed_load_is_returned_and_retried_witness:
  "withLoader_Value (newWithLoader (0::nat) (failing_loader 0 ''boom'') False 0 ([]::nat list))
     [] world0
   = ((0, Some ''boom''),
      \<lparr>value_l = 0, args = [], loader = failing_loader 0 ''boom'', loaded = False,
       withTTL = False, ttl = 0, lastLoad = Some 0\<rparr>,
      \<lparr>clock = 0, calls = [(Background, [])], ext = 1\<rparr>)
   \<and> calls (snd (snd (withLoader_Value
        \<lparr>value_l = 0::nat, args = []::nat list, loader = failing_loader 0 ''boom'',
         loaded = False, withTTL = False, ttl = 0, lastLoad = Some 0\<rparr>
        [] \<lparr>clock = 0, calls = [(Background, [])], ext = 1\<rparr>)))
     = [(Background, []), (Background, [])]"
  using failed_load_is_returned_and_retried
    [of "newWithLoader (0::nat) (failing_loader 0 ''boom'') False 0 ([]::nat list)" "[]" world0
        "(0, Some ''boom'')"
        "\<lparr>value_l = 0, args = [], loader = failing_loader 0 ''boom'', loaded = False,
          withTTL = False, ttl = 0, lastLoad = Some 0\<rparr>"
        "\<lparr>clock = 0, calls = [(Background, [])], ext = 1\<rparr>"
        Background "[]" 0 "''boom''"]
  by (simp add: eval_defs)

text \<open>
  Claim C3. A call of \<^verbatim>\<open>Value\<close> invokes the loader, once, if and only if \<open>loaded\<close> is
  false, or \<open>withTTL\<close> holds, \<open>lastLoad\<close> is present and the time elapsed since it is
  strictly greater than \<open>ttl\<close>; otherwise it invokes nothing. A call at exactly \<open>ttl\<close>
  after the last load, on a loaded cell, is a cache hit.
\<close>

theorem Value_invokes_loader_iff:
  assumes "withLoader_Value l ctxs w = (r, l', w')"
  shows "((\<exists>c. calls w' = calls w @ [c]) \<longleftrightarrow>
            (\<not> loaded l \<or> (withTTL l \<and> (\<exists>t. lastLoad l = Some t \<and> clock w - t > ttl l))))
       \<and> (calls w' = calls w \<longleftrightarrow>
            \<not> (\<not> loaded l \<or> (withTTL l \<and> (\<exists>t. lastLoad l = Some t \<and> clock w - t > ttl l))))
       \<and> (loaded l \<and> lastLoad l = Some t0 \<and> clock w - t0 = ttl l \<longrightarrow> calls w' = calls w)"
  using withLoader_Value_calls_cases [OF assms]
  by (auto simp: needsRefresh_iff split: if_splits)

theorem Value_invokes_loader_iff_witness:
  "withLoader_Value
     \<lparr>value_l = 7::nat, args = [1::nat], loader = const_loader 9, loaded = True,
      withTTL = True, ttl = 100, lastLoad = Some 0\<rparr>
     [] (world0\<lparr>clock := 101\<rparr>)
   = ((9, None :: string option),
      \<lparr>value_l = 9, args = [1], loader = const_loader 9, loaded = True,
       withTTL = True, ttl = 100, lastLoad = Some 101\<rparr>,
      \<lparr>clock = 101, calls = [(Background, [1])], ext = 1\<rparr>)
   \<and> (\<exists>c. calls \<lparr>clock = 101, calls = [(Background, [1::nat])], ext = 1::nat\<rparr>
            = calls (world0\<lparr>clock := 101\<rparr> :: (nat, nat) world) @ [c])"
  using Value_invokes_loader_iff
    [of "\<lparr>value_l = 7::nat, args = [1::nat], loader = const_loader 9, loaded = True,
          withTTL = True, ttl = 100, lastLoad = Some 0\<rparr>" "[]" "world0\<lparr>clock := 101\<rparr>"
        "(9, None :: string option)"
        "\<lparr>value_l = 9, args = [1], loader = const_loader 9, loaded = True,
          withTTL = True, ttl = 100, lastLoad = Some 101\<rparr>"
        "\<lparr>clock = 101, calls = [(Background, [1])], ext = 1\<rparr>"]
  by (simp add: eval_defs)

text \<open>
  Claim C4. With TTL disabled, once a call of \<^verbatim>\<open>Value\<close> has returned \<open>(v, nil)\<close>, every
  later call before a \<^verbatim>\<open>Clear\<close> is a cache hit, however many there are, whatever
  contexts they pass and however much time passes between them: the loader is not invoked
  again, every call returns \<open>(v, nil)\<close>, and the cell stays as it is.
\<close>

theorem cached_value_is_reused_until_Clear:
  assumes "\<not> withTTL l"
    and "withLoader_Value l ctxs w = ((v, None), l', w')"
    and "CallClear \<notin> set ops"
    and "run (OfWithLoader l') ops w' = (rs, c, w'')"
  shows "calls w'' = calls w' \<and> ext w'' = ext w'
       \<and> rs = replicate (length (filter is_CallValue ops)) (v, None)
       \<and> c = OfWithLoader l'"
proof -
  have l': "loaded l' \<and> value_l l' = v \<and> \<not> withTTL l'"
  proof (cases "\<not> loaded l \<or> needsRefresh l w")
    case True
    from withLoader_Value_load_elim(2) [OF True assms(2)] assms(1)
    show ?thesis by simp
  next
    case False
    with assms(1,2) withLoader_Value_hit [of l w ctxs]
    show ?thesis by auto
  qed
  then have "loaded l'" and "\<not> withTTL l'" and v: "value_l l' = v"
    by simp_all
  from run_cached_no_clear [OF this(1,2) assms(3,4)] v
  show ?thesis by simp
qed

theorem cached_value_is_reused_until_Clear_witness:
  "withLoader_Value (newWithLoader (0::nat) (const_loader 5) False 0 ([]::nat list)) [] world0
   = ((5, None :: string option),
      \<lparr>value_l = 5, args = [], loader = const_loader 5, loaded = True,
       withTTL = False, ttl = 0, lastLoad = Some 0\<rparr>,
      \<lparr>clock = 0, calls = [(Background, [])], ext = 1\<rparr>)
   \<and> run (OfWithLoader
        \<lparr>value_l = 5::nat, args = []::nat list,
         loader = const_loader 5 :: (nat, string, nat, nat) LazyFunc, loaded = True,
         withTTL = False, ttl = 0, lastLoad = Some 0\<rparr>)
        [CallValue [], Sleep 1000, CallValue [UserCtx 1]]
        \<lparr>clock = 0, calls = [(Background, [])], ext = 1\<rparr>
   = ([(5, None), (5, None)],
      OfWithLoader
        \<lparr>value_l = 5, args = [], loader = const_loader 5, loaded = True,
         withTTL = False, ttl = 0, lastLoad = Some 0\<rparr>,
      \<lparr>clock = 1000, calls = [(Background, [])], ext = 1\<rparr>)"
  using cached_value_is_reused_until_Clear
    [of "newWithLoader (0::nat) (const_loader 5) False 0 ([]::nat list)" "[]" world0 5
        "\<lparr>value_l = 5, args = [], loader = const_loader 5 :: (nat, string, nat, nat) LazyFunc,
          loaded = True, withTTL = False, ttl = 0, lastLoad = Some 0\<rparr>"
        "\<lparr>clock = 0, calls = [(Background, [])], ext = 1\<rparr>"
        "[CallValue [], Sleep 1000, CallValue [UserCtx 1]]"
        "[(5, None), (5, None)]"
        "OfWithLoader
          \<lparr>value_l = 5, args = [], loader = const_loader 5, loaded = True,
           withTTL = False, ttl = 0, lastLoad = Some 0\<rparr>"
        "\<lparr>clock = 1000, calls = [(Background, [])], ext = 1\<rparr>"]
  by (simp add: eval_defs)

text \<open>
  Claim C5. \<^verbatim>\<open>Clear\<close> sets \<open>loaded\<close> to false and \<open>lastLoad\<close> to nil in every cell
  state and leaves the other fields alone; a second \<^verbatim>\<open>Clear\<close> changes nothing more;
  and the next \<^verbatim>\<open>Value\<close> after a \<^verbatim>\<open>Clear\<close> invokes the loader exactly once.
\<close>

theorem Clear_unloads_and_forces_one_load:
  "loaded (withLoader_Clear l) = False \<and> lastLoad (withLoader_Clear l) = None
   \<and> value_l (withLoader_Clear l) = value_l l \<and> args (withLoader_Clear l) = args l
   \<and> loader (withLoader_Clear l) = loader l \<and> withTTL (withLoader_Clear l) = withTTL l
   \<and> ttl (withLoader_Clear l) = ttl l
   \<and> withLoader_Clear (withLoader_Clear l) = withLoader_Clear l
   \<and> calls (snd (snd (withLoader_Value (withLoader_Clear l) ctxs w)))
        = calls w @ [(case ctxs of [] \<Rightarrow> Background | c # _ \<Rightarrow> c, args l)]"
proof -
  obtain r l' w' where v: "withLoader_Value (withLoader_Clear l) ctxs w = (r, l', w')"
    by (cases "withLoader_Value (withLoader_Clear l) ctxs w") auto
  have "\<not> loaded (withLoader_Clear l) \<or> needsRefresh (withLoader_Clear l) w"
    by (simp add: withLoader_Clear_def)
  from withLoader_Value_load_elim(3) [OF this v]
  have "calls w' = calls w @ [(case ctxs of [] \<Rightarrow> Background | c # _ \<Rightarrow> c, args l)]"
    by (simp add: withLoader_Clear_def)
  then have "calls (snd (snd (withLoader_Value (withLoader_Clear l) ctxs w)))
        = calls w @ [(case ctxs of [] \<Rightarrow> Background | c # _ \<Rightarrow> c, args l)]"
    by (simp add: v)
  moreover have "withLoader_Clear (withLoader_Clear l) = withLoader_Clear l"
    by (simp add: withLoader_Clear_def)
  moreover have "loaded (withLoader_Clear l) = False \<and> lastLoad (withLoader_Clear l) = None
   \<and> value_l (withLoader_Clear l) = value_l l \<and> args (withLoader_Clear l) = args l
   \<and> loader (withLoader_Clear l) = loader l \<and> withTTL (withLoader_Clear l) = withTTL l
   \<and> ttl (withLoader_Clear l) = ttl l"
    by (simp add: withLoader_Clear_def)
  ultimately show ?thesis
    by blast
qed

theorem Clear_unloads_and_forces_one_load_witness:
  "withLoader_Clear
     \<lparr>value_l = 7::nat, args = [1::nat], loader = const_loader 9 :: (nat, string, nat, nat) LazyFunc,
      loaded = True, withTTL = True, ttl = 100, lastLoad = Some 0\<rparr>
   = \<lparr>value_l = 7, args = [1], loader = const_loader 9, loaded = False,
       withTTL = True, ttl = 100, lastLoad = None\<rparr>
   \<and> calls (snd (snd (withLoader_Value (withLoader_Clear
        \<lparr>value_l = 7::nat, args = [1::nat],
         loader = const_loader 9 :: (nat, string, nat, nat) LazyFunc,
         loaded = True, withTTL = True, ttl = 100, lastLoad = Some 0\<rparr>) [UserCtx 3] world0)))
     = [(UserCtx 3, [1])]"
  using Clear_unloads_and_forces_one_load
    [of "\<lparr>value_l = 7::nat, args = [1::nat],
          loader = const_loader 9 :: (nat, string, nat, nat) LazyFunc,
          loaded = True, withTTL = True, ttl = 100, lastLoad = Some 0\<rparr>" "[UserCtx 3]" world0]
  by (simp add: eval_defs)

text \<open>
  Claim C6. When a call of \<^verbatim>\<open>Value\<close> invokes the loader: with no context argument the
  loader receives \<^verbatim>\<open>context.Background()\<close>; with one or more it receives the first and
  the others are ignored; the result of \<^verbatim>\<open>Value\<close> is the loader's result on that
  context and on the cell's arguments. The arguments of the cell never change, so over any
  sequence of calls every invocation receives the arguments given at construction.
\<close>

theorem loader_receives_first_context_and_args:
  assumes "withLoader_Value l ctxs w = (r, l', w')"
    and "calls w' \<noteq> calls w"
  shows "(ctxs = [] \<longrightarrow> calls w' = calls w @ [(Background, args l)]
            \<and> r = fst (loader l Background (args l) (clock w, ext w)))
       \<and> (\<forall>c cs. ctxs = c # cs \<longrightarrow> calls w' = calls w @ [(c, args l)]
            \<and> r = fst (loader l c (args l) (clock w, ext w)))
       \<and> args l' = args l
       \<and> (\<forall>ops w1 rs c1 w2. run (OfWithLoader l) ops w1 = (rs, c1, w2) \<longrightarrow>
            (\<exists>cs. calls w2 = calls w1 @ cs \<and> (\<forall>x\<in>set cs. snd x = args l)))"
proof -
  have cond: "\<not> loaded l \<or> needsRefresh l w"
    using withLoader_Value_calls_cases [OF assms(1)] assms(2) by (auto split: if_splits)
  note load = withLoader_Value_load_elim [OF cond assms(1)]
  have a: "ctxs = [] \<longrightarrow> calls w' = calls w @ [(Background, args l)]
            \<and> r = fst (loader l Background (args l) (clock w, ext w))"
    using load(1,3) by simp
  have b: "\<forall>c cs. ctxs = c # cs \<longrightarrow> calls w' = calls w @ [(c, args l)]
            \<and> r = fst (loader l c (args l) (clock w, ext w))"
    using load(1,3) by simp
  have c: "args l' = args l"
    using withLoader_Value_config [OF assms(1)] by simp
  have d: "\<forall>ops w1 rs c1 w2. run (OfWithLoader l) ops w1 = (rs, c1, w2) \<longrightarrow>
            (\<exists>cs. calls w2 = calls w1 @ cs \<and> (\<forall>x\<in>set cs. snd x = args l))"
    using run_withLoader_config by blast
  from a b c d show ?thesis by blast
qed

theorem loader_receives_first_context_and_args_witness:
  "withLoader_Value (newWithLoader (Background, []) echo_loader False 0 [1::nat, 2])
     [UserCtx 1, UserCtx 2] world0
   = (((UserCtx 1, [1, 2]), None :: string option),
      \<lparr>value_l = (UserCtx 1, [1, 2]), args = [1, 2], loader = echo_loader, loaded = True,
       withTTL = False, ttl = 0, lastLoad = Some 0\<rparr>,
      \<lparr>clock = 0, calls = [(UserCtx 1, [1, 2])], ext = 1\<rparr>)
   \<and> calls \<lparr>clock = 0, calls = [(UserCtx 1, [1::nat, 2])], ext = 1::nat\<rparr>
       = calls (world0 :: (nat, nat) world) @ [(UserCtx 1, [1, 2])]"
  using loader_receives_first_context_and_args
    [of "newWithLoader (Background, []) echo_loader False 0 [1::nat, 2]"
        "[UserCtx 1, UserCtx 2]" world0
        "((UserCtx 1, [1, 2]), None :: string option)"
        "\<lparr>value_l = (UserCtx 1, [1, 2]), args = [1, 2], loader = echo_loader, loaded = True,
          withTTL = False, ttl = 0, lastLoad = Some 0\<rparr>"
        "\<lparr>clock = 0, calls = [(UserCtx 1, [1, 2])], ext = 1\<rparr>"]
  by (simp add: eval_defs)

text \<open>
  Claim C7. On the static variant made from \<open>v\<close>, in every sequence of \<^verbatim>\<open>Value\<close> and
  \<^verbatim>\<open>Clear\<close> calls each \<^verbatim>\<open>Value\<close> returns \<open>(v, nil)\<close>, no loader is invoked (the
  record of calls and the loaders' state are as before), and the cell is the one it was:
  \<^verbatim>\<open>Clear\<close> is a no-op.
\<close>

theorem Static_always_returns_its_value:
  assumes "run (Static v) ops w = (rs, c, w')"
  shows "rs = replicate (length (filter is_CallValue ops)) (v, None)
       \<and> c = Static v \<and> calls w' = calls w \<and> ext w' = ext w"
  using run_static [of "\<lparr>value_s = v\<rparr>" ops w rs c w'] assms
  by (simp add: Static_def)

theorem Static_always_returns_its_value_witness:
  "run (Static (123::nat) :: (nat, string, nat, nat) Lazy)
     [CallValue [], CallClear, Sleep 5, CallValue [UserCtx 1]] world0
   = ([(123, None), (123, None)], Static 123, \<lparr>clock = 5, calls = [], ext = 0\<rparr>)
   \<and> calls \<lparr>clock = 5, calls = [] :: (context \<times> nat list) list, ext = 0::nat\<rparr>
       = calls (world0 :: (nat, nat) world)"
  using Static_always_returns_its_value
    [of "123::nat" "[CallValue [], CallClear, Sleep 5, CallValue [UserCtx 1]]"
        "world0 :: (nat, nat) world" "[(123, None :: string option), (123, None)]"
        "Static 123" "\<lparr>clock = 5, calls = [], ext = 0\<rparr>"]
  by (simp add: eval_defs)

text \<open>
  Claim C8 says that for every cell and every \<open>K \<ge> 1\<close> concurrent callers of
  \<^verbatim>\<open>Value\<close> on a fresh cell, at most one loader invocation is in progress at any time,
  exactly one occurs in total and all callers receive identical results, and that
  \<^verbatim>\<open>Clear\<close> and \<^verbatim>\<open>Value\<close> are serialized by the lock. The count fails: two callers of a
  fresh cell whose loader fails make two invocations, and so do two callers of a fresh cell
  with a TTL of zero when time passes between them.
\<close>

theorem two_callers_two_loads_counterexample:
  "exec (start (newWithLoader (0::nat) (failing_loader 0 ''boom'') False 0 ([]::nat list))
          world0 [DoValue [], DoValue []])
     [Run 0, Run 0, Run 0, Run 0, Run 1, Run 1, Run 1, Run 1]
   = \<lparr>cell = \<lparr>value_l = 0, args = [], loader = failing_loader 0 ''boom'', loaded = False,
              withTTL = False, ttl = 0, lastLoad = Some 0\<rparr>,
      wld = \<lparr>clock = 0, calls = [(Background, []), (Background, [])], ext = 2\<rparr>,
      mu = False,
      thr = [Done (Some (0, Some ''boom'')), Done (Some (0, Some ''boom''))]\<rparr>
   \<and> exec (start (newWithLoader (0::nat)
                   (const_loader 5 :: (nat, string, nat, nat) LazyFunc) True 0 ([]::nat list))
          world0 [DoValue [], DoValue []])
     [Run 0, Run 0, Run 0, Run 0, Tick 1, Run 1, Run 1, Run 1, Run 1]
   = \<lparr>cell = \<lparr>value_l = 5, args = [], loader = const_loader 5, loaded = True,
              withTTL = True, ttl = 0, lastLoad = Some 1\<rparr>,
      wld = \<lparr>clock = 1, calls = [(Background, []), (Background, [])], ext = 2\<rparr>,
      mu = False,
      thr = [Done (Some (5, None)), Done (Some (5, None))]\<rparr>"
  by (simp add: eval_defs start_def thread_step_def)

text \<open>
  Claim C8, amended. Under every schedule: for a fresh cell with TTL disabled whose loader
  does not fail and any number of callers of \<^verbatim>\<open>Value\<close>, at most one caller is inside
  the loader at any time, at most one invocation has occurred, and as soon as a caller has
  returned exactly one has, every caller that has returned having received the same
  \<open>(v, nil)\<close>. For every cell and every mix of callers of \<^verbatim>\<open>Value\<close> and \<^verbatim>\<open>Clear\<close>,
  at most one caller is between \<^verbatim>\<open>Lock\<close> and \<^verbatim>\<open>Unlock\<close>, and a step changes the cell
  only when its caller is there, the mutex locked. Some schedule lets every caller return.
\<close>

theorem single_flight_under_the_mutex:
  assumes ok: "\<forall>ctx s. snd (fst (f ctx as s)) = None"
    and c: "c = exec (start (newWithLoader zero f False d as) w0 (map DoValue ctxss)) es"
  shows "(\<forall>i<length (thr c). \<forall>j<length (thr c).
            is_Loading (thr c ! i) \<and> is_Loading (thr c ! j) \<longrightarrow> i = j)
       \<and> (calls (wld c) = calls w0 \<or> (\<exists>x. calls (wld c) = calls w0 @ [x]))
       \<and> ((\<exists>i<length (thr c). is_Done (thr c ! i)) \<longrightarrow>
            (\<exists>x v. calls (wld c) = calls w0 @ [x] \<and>
               (\<forall>i<length (thr c). is_Done (thr c ! i) \<longrightarrow> thr c ! i = Done (Some (v, None)))))
       \<and> (\<forall>(l :: ('v, 'e, 'a, 'u) withLoader) w cls es' i j.
            i < length cls \<and> j < length cls
            \<and> in_cs (thr (exec (start l w cls) es') ! i)
            \<and> in_cs (thr (exec (start l w cls) es') ! j) \<longrightarrow> i = j)
       \<and> (\<forall>(l :: ('v, 'e, 'a, 'u) withLoader) w cls es' i.
            cell (thread_step i (exec (start l w cls) es')) \<noteq> cell (exec (start l w cls) es')
            \<longrightarrow> mu (exec (start l w cls) es') \<and> in_cs (thr (exec (start l w cls) es') ! i))
       \<and> (\<exists>es'. \<forall>i<length ctxss.
            is_Done (thr (exec (start (newWithLoader zero f False d as) w0 (map DoValue ctxss)) es') ! i))"
proof -
  have mx: "mutex_inv c"
    unfolding c by (rule mutex_inv_exec_start)
  have sf0: "single_flight_inv f as (calls w0)
      (start (newWithLoader zero f False d as) w0 (map DoValue ctxss))"
    by (rule single_flight_inv_start)
  have sf: "single_flight_inv f as (calls w0) c"
    unfolding c
    by (rule single_flight_inv_exec [where f = f and as = as, OF ok mutex_inv_start sf0])
  have loading: "\<forall>i<length (thr c). \<forall>j<length (thr c).
            is_Loading (thr c ! i) \<and> is_Loading (thr c ! j) \<longrightarrow> i = j"
  proof (intro allI impI)
    fix i j
    assume "i < length (thr c)" "j < length (thr c)"
      and l: "is_Loading (thr c ! i) \<and> is_Loading (thr c ! j)"
    moreover from l have "in_cs (thr c ! i)" "in_cs (thr c ! j)"
      by (simp_all add: is_Loading_in_cs)
    ultimately show "i = j"
      using mx by (simp add: mutex_inv_unique)
  qed
  have atmost: "calls (wld c) = calls w0 \<or> (\<exists>x. calls (wld c) = calls w0 @ [x])"
    using sf by (rule single_flight_at_most_one)
  have fin: "(\<exists>i<length (thr c). is_Done (thr c ! i)) \<longrightarrow>
            (\<exists>x v. calls (wld c) = calls w0 @ [x] \<and>
               (\<forall>i<length (thr c). is_Done (thr c ! i) \<longrightarrow> thr c ! i = Done (Some (v, None))))"
  proof
    assume "\<exists>i<length (thr c). is_Done (thr c ! i)"
    then obtain i where i: "i < length (thr c)" "is_Done (thr c ! i)" by blast
    from single_flight_done [OF sf i]
    obtain x where x: "calls (wld c) = calls w0 @ [x]"
      and v: "\<forall>j<length (thr c). is_Done (thr c ! j) \<longrightarrow>
            thr c ! j = Done (Some (value_l (cell c), None))"
      by blast
    show "\<exists>x v. calls (wld c) = calls w0 @ [x] \<and>
               (\<forall>i<length (thr c). is_Done (thr c ! i) \<longrightarrow> thr c ! i = Done (Some (v, None)))"
      by (rule exI [of _ x], rule exI [of _ "value_l (cell c)"]) (simp add: x v)
  qed
  have serial: "\<forall>(l :: ('v, 'e, 'a, 'u) withLoader) w cls es' i j.
            i < length cls \<and> j < length cls
            \<and> in_cs (thr (exec (start l w cls) es') ! i)
            \<and> in_cs (thr (exec (start l w cls) es') ! j) \<longrightarrow> i = j"
  proof (intro allI impI)
    fix l :: "('v, 'e, 'a, 'u) withLoader" and w cls es' i j
    let ?c = "exec (start l w cls) es'"
    assume a: "i < length cls \<and> j < length cls \<and> in_cs (thr ?c ! i) \<and> in_cs (thr ?c ! j)"
    then have "i < length (thr ?c)" "j < length (thr ?c)"
      by (simp_all add: start_def)
    moreover from a have "in_cs (thr ?c ! i)" "in_cs (thr ?c ! j)" by simp_all
    ultimately show "i = j"
      by (rule mutex_inv_unique [OF mutex_inv_exec_start])
  qed
  have owner: "\<forall>(l :: ('v, 'e, 'a, 'u) withLoader) w cls es' i.
            cell (thread_step i (exec (start l w cls) es')) \<noteq> cell (exec (start l w cls) es')
            \<longrightarrow> mu (exec (start l w cls) es') \<and> in_cs (thr (exec (start l w cls) es') ! i)"
  proof (intro allI impI)
    fix l :: "('v, 'e, 'a, 'u) withLoader" and w cls es' i
    let ?c = "exec (start l w cls) es'"
    assume "cell (thread_step i ?c) \<noteq> cell ?c"
    then have o: "i < length (thr ?c) \<and> in_cs (thr ?c ! i)"
      by (intro thread_step_cell_owner) simp
    then have "mu ?c"
      using mutex_inv_locked [OF mutex_inv_exec_start, of i l w cls es'] by simp
    with o show "mu ?c \<and> in_cs (thr ?c ! i)" by simp
  qed
  have complete: "\<exists>es'. \<forall>i<length ctxss.
      is_Done (thr (exec (start (newWithLoader zero f False d as) w0 (map DoValue ctxss)) es') ! i)"
    by (rule all_callers_can_return)
  show ?thesis
    apply (intro conjI)
         apply (rule loading)
        apply (rule atmost)
       apply (rule fin)
      apply (rule serial)
     apply (rule owner)
    apply (rule complete)
    done
qed

theorem single_flight_under_the_mutex_witness:
  "exec (start (newWithLoader (0::nat)
                 (const_loader 5 :: (nat, string, nat, nat) LazyFunc) False 0 ([]::nat list))
          world0 [DoValue [], DoValue [UserCtx 1], DoValue []])
     [Run 0, Run 1, Run 0, Run 2, Tick 10, Run 0, Run 1, Run 0,
      Run 2, Run 2, Run 1, Run 2, Run 1, Run 1, Run 1]
   = \<lparr>cell = \<lparr>value_l = 5, args = [], loader = const_loader 5, loaded = True,
              withTTL = False, ttl = 0, lastLoad = Some 10\<rparr>,
      wld = \<lparr>clock = 10, calls = [(Background, [])], ext = 1\<rparr>,
      mu = False,
      thr = [Done (Some (5, None)), Done (Some (5, None)), Done (Some (5, None))]\<rparr>"
  using single_flight_under_the_mutex
    [of "const_loader 5 :: (nat, string, nat, nat) LazyFunc" "[]::nat list"
        "exec (start (newWithLoader (0::nat)
                 (const_loader 5 :: (nat, string, nat, nat) LazyFunc) False 0 ([]::nat list))
          world0 [DoValue [], DoValue [UserCtx 1], DoValue []])
     [Run 0, Run 1, Run 0, Run 2, Tick 10, Run 0, Run 1, Run 0,
      Run 2, Run 2, Run 1, Run 2, Run 1, Run 1, Run 1]"
        0 0 world0 "[[], [UserCtx 1], []]"
        "[Run 0, Run 1, Run 0, Run 2, Tick 10, Run 0, Run 1, Run 0,
      Run 2, Run 2, Run 1, Run 2, Run 1, Run 1, Run 1]"]
  by (simp add: eval_defs start_def thread_step_def)

text \<open>
  Claim C9. When \<open>loaded\<close> holds and the refresh condition does not (TTL disabled, or no
  \<open>lastLoad\<close>, or the elapsed time not greater than \<open>ttl\<close>), \<^verbatim>\<open>Value\<close> returns the
  stored value with a nil error and changes nothing: the cell after the call is the cell
  before it, field by field, and so is the world (the loader was not called).
\<close>

theorem Value_cache_hit_changes_nothing:
  assumes "loaded l"
    and "\<not> withTTL l \<or> lastLoad l = None \<or> (\<exists>t. lastLoad l = Some t \<and> \<not> clock w - t > ttl l)"
  shows "withLoader_Value l ctxs w = ((value_l l, None), l, w)"
proof -
  from assms(2) have "\<not> needsRefresh l w"
    by (auto simp: needsRefresh_iff)
  with assms(1) show ?thesis
    by (rule withLoader_Value_hit)
qed

theorem Value_cache_hit_changes_nothing_witness:
  "withLoader_Value
     \<lparr>value_l = 7::nat, args = [1::nat], loader = const_loader 9, loaded = True,
      withTTL = True, ttl = 100, lastLoad = Some 0\<rparr>
     [UserCtx 1] (world0\<lparr>clock := 100\<rparr>)
   = ((7, None :: string option),
      \<lparr>value_l = 7, args = [1], loader = const_loader 9, loaded = True,
       withTTL = True, ttl = 100, lastLoad = Some 0\<rparr>,
      world0\<lparr>clock := 100\<rparr>)"
  using Value_cache_hit_changes_nothing
    [of "\<lparr>value_l = 7::nat, args = [1::nat], loader = const_loader 9, loaded = True,
          withTTL = True, ttl = 100, lastLoad = Some 0\<rparr>" "world0\<lparr>clock := 100\<rparr>" "[UserCtx 1]"]
  by (simp add: world0_def)

text \<open>
  Claim C10. A cell made with TTL enabled and a \<open>ttl\<close> of zero keeps \<open>withTTL\<close> true and
  \<open>ttl = 0\<close> through every sequence of calls; once \<open>lastLoad\<close> is set, a call of
  \<^verbatim>\<open>Value\<close> at any strictly later clock invokes the loader again, whether or not the
  cell is loaded.
\<close>

theorem zero_ttl_is_an_enabled_ttl:
  assumes "c0 = WithLoaderTTL zero f 0 as \<or> c0 = PreloadedTTL v f 0 as wc"
    and "run c0 ops w0 = (rs, c, w1)"
  shows "\<exists>l. c = OfWithLoader l \<and> withTTL l \<and> ttl l = 0
          \<and> (\<forall>t w ctxs. lastLoad l = Some t \<and> 0 < clock w - t \<longrightarrow>
                calls (snd (snd (withLoader_Value l ctxs w)))
                  = calls w @ [(case ctxs of [] \<Rightarrow> Background | c # _ \<Rightarrow> c, as)])"
proof -
  have "\<exists>l0. c0 = OfWithLoader l0 \<and> args l0 = as \<and> withTTL l0 \<and> ttl l0 = 0"
  proof (rule disjE [OF assms(1)])
    assume "c0 = WithLoaderTTL zero f 0 as"
    then show ?thesis
      by (simp add: WithLoaderTTL_def newWithLoader_def)
  next
    assume "c0 = PreloadedTTL v f 0 as wc"
    then show ?thesis
      by (simp add: PreloadedTTL_def newWithLoaderPreloaded_def)
  qed
  then obtain l0 where l0: "c0 = OfWithLoader l0" "args l0 = as" "withTTL l0" "ttl l0 = 0"
    by blast
  have "run (OfWithLoader l0) ops w0 = (rs, c, w1)"
    using assms(2) l0(1) by simp
  from run_withLoader_config [OF this]
  obtain l where "c = OfWithLoader l" "args l = args l0" "withTTL l = withTTL l0" "ttl l = ttl l0"
    by blast
  with l0 have l: "c = OfWithLoader l" "args l = as" "withTTL l" "ttl l = 0"
    by simp_all
  have "calls (snd (snd (withLoader_Value l ctxs w)))
          = calls w @ [(case ctxs of [] \<Rightarrow> Background | c # _ \<Rightarrow> c, as)]"
    if "lastLoad l = Some t" "0 < clock w - t" for t w ctxs
  proof -
    obtain r l' w' where val: "withLoader_Value l ctxs w = (r, l', w')"
      by (cases "withLoader_Value l ctxs w") auto
    from that l(3,4) have "\<not> loaded l \<or> needsRefresh l w"
      by (simp add: needsRefresh_iff)
    from withLoader_Value_load_elim(3) [OF this val] show ?thesis
      by (simp add: val l(2))
  qed
  with l show ?thesis by blast
qed

theorem zero_ttl_is_an_enabled_ttl_witness:
  "run (WithLoaderTTL (0::nat) (const_loader 5) 0 ([]::nat list)) [CallValue []] world0
   = ([(5, None :: string option)],
      OfWithLoader
        \<lparr>value_l = 5, args = [], loader = const_loader 5, loaded = True,
         withTTL = True, ttl = 0, lastLoad = Some 0\<rparr>,
      \<lparr>clock = 0, calls = [(Background, [])], ext = 1\<rparr>)
   \<and> calls (snd (snd (withLoader_Value
        \<lparr>value_l = 5::nat, args = []::nat list,
         loader = const_loader 5 :: (nat, string, nat, nat) LazyFunc, loaded = True,
         withTTL = True, ttl = 0, lastLoad = Some 0\<rparr>
        [] \<lparr>clock = 1, calls = [(Background, [])], ext = 1\<rparr>)))
     = [(Background, []), (Background, [])]"
  using zero_ttl_is_an_enabled_ttl
    [of "WithLoaderTTL (0::nat) (const_loader 5) 0 ([]::nat list)"
        "0::nat" "const_loader 5 :: (nat, string, nat, nat) LazyFunc" "[]" 0 world0
        "[CallValue []]" world0 "[(5, None)]"
        "OfWithLoader
          \<lparr>value_l = 5, args = [], loader = const_loader 5, loaded = True,
           withTTL = True, ttl = 0, lastLoad = Some 0\<rparr>"
        "\<lparr>clock = 0, calls = [(Background, [])], ext = 1\<rparr>"]
  by (simp add: eval_defs)

end
